theory Spec2Isabelle
  imports Main "HOL-Library.Sublist"
begin

section \<open>Text primitives of the analyzer script\<close>

text \<open>
  The script \<^verbatim>\<open>storage_phase1_analysis.py\<close> works on Python \<^verbatim>\<open>str\<close> values. They are
  modelled as \<^typ>\<open>string\<close>, one \<^typ>\<open>char\<close> per code point, so the model covers texts
  whose code points are below 256. The newline is \<^term>\<open>CHR 0x0A\<close>.
\<close>

text \<open>
  \<^verbatim>\<open>str.isspace\<close>, which is also what \<^verbatim>\<open>\s\<close> matches in a \<^verbatim>\<open>str\<close> pattern: below 256
  the whitespace code points are 9 to 13, 28 to 32, 133 and 160.
\<close>

definition is_space :: "char \<Rightarrow> bool" where
  "is_space c = (c \<in> set [CHR 0x09, CHR 0x0A, CHR 0x0B, CHR 0x0C, CHR 0x0D,
                           CHR 0x1C, CHR 0x1D, CHR 0x1E, CHR 0x1F, CHR 0x20,
                           CHR 0x85, CHR 0xA0])"

text \<open>The character class \<^verbatim>\<open>[a-zA-Z0-9_]\<close>.\<close>

definition is_ident :: "char \<Rightarrow> bool" where
  "is_ident c =
     (c \<in> set ''abcdefghijklmnopqrstuvwxyzABCDEFGHIJKLMNOPQRSTUVWXYZ0123456789_'')"

text \<open>\<^verbatim>\<open>s.strip()\<close>: whitespace removed at both ends.\<close>

definition strip :: "string \<Rightarrow> string" where
  "strip s = rev (dropWhile is_space (rev (dropWhile is_space s)))"

text \<open>\<^verbatim>\<open>s.startswith(p)\<close>.\<close>

fun startswith :: "string \<Rightarrow> string \<Rightarrow> bool" where
  "startswith s [] = True"
| "startswith [] (p # ps) = False"
| "startswith (c # cs) (p # ps) = (c = p \<and> startswith cs ps)"

text \<open>\<^verbatim>\<open>p in s\<close> on strings: \<open>p\<close> occurs in \<open>s\<close> as a contiguous substring.\<close>

fun contains :: "string \<Rightarrow> string \<Rightarrow> bool" where
  "contains [] p = startswith [] p"
| "contains (c # cs) p = (startswith (c # cs) p \<or> contains cs p)"

text \<open>
  \<^verbatim>\<open>s.split(d)\<close> for a one-character separator: the pieces between the separators, always
  at least one piece.
\<close>

fun split_on :: "char \<Rightarrow> string \<Rightarrow> string list" where
  "split_on d [] = [[]]"
| "split_on d (c # cs) =
     (if c = d then [] # split_on d cs
      else (case split_on d cs of
              [] \<Rightarrow> [[c]]
            | w # ws \<Rightarrow> (c # w) # ws))"

text \<open>
  \<^verbatim>\<open>s.split()\<close>: the maximal runs of non-whitespace characters. The first argument is the
  run read so far, reversed.
\<close>

fun split_ws_acc :: "string \<Rightarrow> string \<Rightarrow> string list" where
  "split_ws_acc w [] = (if w = [] then [] else [rev w])"
| "split_ws_acc w (c # cs) =
     (if is_space c then (if w = [] then split_ws_acc [] cs else rev w # split_ws_acc [] cs)
      else split_ws_acc (c # w) cs)"

definition split_ws :: "string \<Rightarrow> string list" where
  "split_ws s = split_ws_acc [] s"

text \<open>\<^verbatim>\<open>sep.join(xs)\<close>.\<close>

fun join :: "string \<Rightarrow> string list \<Rightarrow> string" where
  "join sep [] = []"
| "join sep [x] = x"
| "join sep (x # y # ys) = x @ sep @ join sep (y # ys)"

text \<open>\<^verbatim>\<open>str(n)\<close> for the result of \<^verbatim>\<open>len\<close>: the decimal digits of a natural number.\<close>

definition digit :: "nat \<Rightarrow> char" where
  "digit d = ''0123456789'' ! d"

fun str_nat :: "nat \<Rightarrow> string" where
  "str_nat n = (if n < 10 then [digit n] else str_nat (n div 10) @ [digit (n mod 10)])"

declare str_nat.simps [simp del]

section \<open>Regular expressions of the script, as backtracking matchers\<close>

text \<open>
  \<^verbatim>\<open>(.*)\n\}\<close> under \<^verbatim>\<open>re.S\<close>: the group is greedy, so the matcher first tries to give
  it one more character and only then to close it here. The result is the captured group.
\<close>

fun greedy_close :: "string \<Rightarrow> string option" where
  "greedy_close [] = None"
| "greedy_close (c # cs) =
     (case greedy_close cs of
        Some g \<Rightarrow> Some (c # g)
      | None \<Rightarrow> if c = CHR 0x0A \<and> startswith cs ''}'' then Some [] else None)"



text \<open>
  \<^verbatim>\<open>.*?\{(.*)\n\}\<close> under \<^verbatim>\<open>re.S\<close>: the first part is lazy, so the matcher first tries
  to open the group at this character and only then skips it.
\<close>

fun lazy_open :: "string \<Rightarrow> string option" where
  "lazy_open [] = None"
| "lazy_open (c # cs) =
     (if c = CHR ''{'' then
        (case greedy_close cs of
           Some g \<Rightarrow> Some g
         | None \<Rightarrow> lazy_open cs)
      else lazy_open cs)"

text \<open>
  The class name is spliced into the pattern. It is modelled as a literal, which is what the
  pattern means for a name without regular-expression metacharacters (both calls of the
  script pass such a name); \<open>regex_literal\<close> says so.
\<close>

definition regex_literal :: "string \<Rightarrow> bool" where
  "regex_literal class_name = (\<forall>c \<in> set class_name. c \<notin> set (''.^$*+?{}[]|()'' @ [CHR 0x5C]))"

definition name_then :: "string \<Rightarrow> string \<Rightarrow> string option" where
  "name_then class_name s =
     (if startswith s class_name then lazy_open (drop (length class_name) s) else None)"

text \<open>
  \<^verbatim>\<open>\s+\<close> followed by the rest of the pattern: one whitespace character, then greedily
  more of them, and on failure the rest of the pattern from here.
\<close>

fun ws_then :: "string \<Rightarrow> string \<Rightarrow> string option" where
  "ws_then class_name [] = None"
| "ws_then class_name (c # cs) =
     (if is_space c then
        (case ws_then class_name cs of
           Some g \<Rightarrow> Some g
         | None \<Rightarrow> name_then class_name cs)
      else None)"

definition match_class :: "string \<Rightarrow> string \<Rightarrow> string option" where
  "match_class class_name s =
     (if startswith s ''class'' then ws_then class_name (drop (length ''class'') s) else None)"

text \<open>
  \<^verbatim>\<open>re.search(rf'class\s+{class_name}.*?\{{(.*)\n\}}', text, re.S)\<close>, group 1 of the first
  match from the left.
\<close>

fun search_class :: "string \<Rightarrow> string \<Rightarrow> string option" where
  "search_class class_name [] = match_class class_name []"
| "search_class class_name (c # cs) =
     (case match_class class_name (c # cs) of
        Some g \<Rightarrow> Some g
      | None \<Rightarrow> search_class class_name cs)"

text \<open>
  \<^verbatim>\<open>re.match(r'([a-zA-Z0-9_]+)\(', line)\<close>, group 1. An opening parenthesis is not in
  the character class, so only the longest run of name characters can be followed by it.
\<close>

definition signature_name :: "string \<Rightarrow> string option" where
  "signature_name line =
     (let name = takeWhile is_ident line; rest = dropWhile is_ident line
      in if name \<noteq> [] \<and> startswith rest ''('' then Some name else None)"

text \<open>\<^verbatim>\<open>.*\)\s*\{\<close> without \<^verbatim>\<open>re.S\<close>: the dot does not match a newline.\<close>

fun dot_star_close :: "string \<Rightarrow> bool" where
  "dot_star_close [] = False"
| "dot_star_close (c # cs) =
     ((c \<noteq> CHR 0x0A \<and> dot_star_close cs)
      \<or> (c = CHR '')'' \<and> startswith (dropWhile is_space cs) ''{''))"

text \<open>\<^verbatim>\<open>re.match(r'[a-zA-Z0-9_]+\(.*\)\s*\{', stripped)\<close> as a truth value.\<close>

definition sync_shape :: "string \<Rightarrow> bool" where
  "sync_shape stripped =
     (let name = takeWhile is_ident stripped; rest = dropWhile is_ident stripped
      in name \<noteq> [] \<and> startswith rest ''('' \<and> dot_star_close (drop 1 rest))"

section \<open>Sections of the interface body\<close>

text \<open>
  The \<^verbatim>\<open>OrderedDict\<close> \<^verbatim>\<open>sections\<close> is an association list in insertion order; the script
  only ever adds a key that is absent, so its keys stay distinct.
\<close>

type_synonym section_map = "(string \<times> string list) list"

text \<open>\<^verbatim>\<open>sections.setdefault(k, [])\<close>, the dictionary afterwards.\<close>

definition setdefault :: "section_map \<Rightarrow> string \<Rightarrow> section_map" where
  "setdefault secs k = (if k \<in> set (map fst secs) then secs else secs @ [(k, [])])"

text \<open>\<^verbatim>\<open>sections[k].append(v)\<close> for a key that is present.\<close>

fun append_to :: "section_map \<Rightarrow> string \<Rightarrow> string \<Rightarrow> section_map" where
  "append_to [] k v = []"
| "append_to ((k', vs) # rest) k v =
     (if k' = k then (k', vs @ [v]) # rest else (k', vs) # append_to rest k v)"

text \<open>\<^verbatim>\<open>re.sub(r'^//\s*', '', line)\<close> on a line that starts with \<^verbatim>\<open>//\<close>.\<close>

definition marker_title :: "string \<Rightarrow> string" where
  "marker_title line = dropWhile is_space (drop 2 line)"

text \<open>One iteration of the loop over the lines of the body; the state is the dictionary
  and the variable \<^verbatim>\<open>current\<close>.\<close>

fun section_step :: "section_map \<times> string \<Rightarrow> string \<Rightarrow> section_map \<times> string" where
  "section_step (secs, current) raw =
     (let line = strip raw in
      if line = [] then (secs, current)
      else if startswith line ''//'' then
        (setdefault secs (marker_title line), marker_title line)
      else (case signature_name line of
              Some name \<Rightarrow> (append_to (setdefault secs current) current name, current)
            | None \<Rightarrow> (secs, current)))"

definition scan_lines :: "string list \<Rightarrow> section_map \<times> string" where
  "scan_lines ls = foldl section_step ([], ''General'') ls"

definition sections :: "string \<Rightarrow> section_map" where
  "sections body = fst (scan_lines (split_on (CHR 0x0A) body))"

text \<open>\<^verbatim>\<open>sections.get(sec, [])\<close>.\<close>

definition get_section :: "section_map \<Rightarrow> string \<Rightarrow> string list" where
  "get_section secs sec = (case map_of secs sec of Some names \<Rightarrow> names | None \<Rightarrow> [])"

section \<open>Method vocabulary of an implementation\<close>

text \<open>
  The body of the loop of \<^verbatim>\<open>extract_methods\<close>: the name that the iteration adds to
  \<^verbatim>\<open>result\<close>, if it adds one. In the asynchronous branch the script takes the last word of
  the text before the first parenthesis; that text starts with \<^verbatim>\<open>async\<close>, so there is a
  last word (lemma \<open>async_words_nonempty\<close>).
\<close>

definition method_name :: "string \<Rightarrow> string option" where
  "method_name line =
     (let stripped = strip line in
      if stripped = [] \<or> startswith stripped ''//'' then None
      else if startswith stripped ''async '' then
        Some (last (split_ws (hd (split_on (CHR ''('') stripped))))
      else if sync_shape stripped \<and> \<not> contains stripped ''constructor''
              \<and> \<not> contains stripped ''async'' then
        Some (hd (split_on (CHR ''('') stripped))
      else None)"

definition add_method :: "string set \<Rightarrow> string \<Rightarrow> string set" where
  "add_method result line =
     (case method_name line of Some name \<Rightarrow> insert name result | None \<Rightarrow> result)"

definition extract_methods :: "string \<Rightarrow> string \<Rightarrow> string set" where
  "extract_methods text class_name =
     (case search_class class_name text of
        None \<Rightarrow> {}
      | Some block \<Rightarrow> foldl add_method {} (split_on (CHR 0x0A) block))"

section \<open>Coverage report\<close>

definition filtered :: "string list \<Rightarrow> string list" where
  "filtered names = filter (\<lambda>n. n \<noteq> ''constructor'') names"

definition missing :: "string set \<Rightarrow> string list \<Rightarrow> string list" where
  "missing methods names = filter (\<lambda>n. n \<notin> methods) (filtered names)"

text \<open>The lines that one iteration of the summary loop appends.\<close>

definition summary_lines :: "string set \<Rightarrow> string set \<Rightarrow> string \<times> string list \<Rightarrow> string list" where
  "summary_lines mem_methods db_methods item =
     (let sec = fst item;
          missing_mem = missing mem_methods (snd item);
          missing_db = missing db_methods (snd item)
      in [''['' @ sec @ ''] total='' @ str_nat (length (filtered (snd item)))
            @ '' missing_mem='' @ str_nat (length missing_mem)
            @ '' missing_db='' @ str_nat (length missing_db)]
         @ (if missing_mem \<noteq> [] then [''  missing_mem_list='' @ join '', '' missing_mem] else [])
         @ (if missing_db \<noteq> [] then [''  missing_db_list='' @ join '', '' missing_db] else []))"

definition detail_line :: "string set \<Rightarrow> string set \<Rightarrow> string \<Rightarrow> string" where
  "detail_line mem_methods db_methods name =
     ''- '' @ name @ '': inMem='' @ (if name \<in> mem_methods then ''Y'' else ''N'')
       @ '', inDb='' @ (if name \<in> db_methods then ''Y'' else ''N'')"

text \<open>The lines that one iteration of the detail loop appends.\<close>

definition detail_lines :: "string set \<Rightarrow> string set \<Rightarrow> string \<times> string list \<Rightarrow> string list" where
  "detail_lines mem_methods db_methods item =
     (if filtered (snd item) = [] then []
      else (''## '' @ fst item) # map (detail_line mem_methods db_methods) (filtered (snd item)))"

definition REPORT_LINES :: "section_map \<Rightarrow> string set \<Rightarrow> string set \<Rightarrow> string list" where
  "REPORT_LINES secs mem_methods db_methods =
     foldl (\<lambda>ls item. ls @ detail_lines mem_methods db_methods item)
       (foldl (\<lambda>ls item. ls @ summary_lines mem_methods db_methods item) [''SECTION_SUMMARY''] secs
          @ [CHR 0x0A # ''DETAILED_METHODS''])
       secs"

section \<open>Generated contracts\<close>

text \<open>\<^verbatim>\<open>SECTION_CONFIG.items()\<close>: section title, then type name and property name.\<close>

type_synonym domain_config = "(string \<times> string \<times> string) list"


text \<open>The line with the narrowed type of one domain.\<close>

definition type_decl :: "string \<Rightarrow> string list \<Rightarrow> string" where
  "type_decl type_name methods =
     ''export type '' @ type_name @ '' = Pick<IStorage,'' @ [CHR 0x0A] @ ''  ''
       @ join ('' |'' @ [CHR 0x0A] @ ''  '') (map (\<lambda>name. [CHR 0x27] @ name @ [CHR 0x27]) methods)
       @ [CHR 0x0A] @ ''>;'' @ [CHR 0x0A]"

text \<open>
  One iteration of the loop over the configuration; the state is the pair of the lists
  \<^verbatim>\<open>contracts_lines\<close> and \<^verbatim>\<open>repository_entries\<close>.
\<close>

fun contract_step ::
  "section_map \<Rightarrow> string list \<times> (string \<times> string) list \<Rightarrow> string \<times> string \<times> string
     \<Rightarrow> string list \<times> (string \<times> string) list" where
  "contract_step secs (ls, entries) (sec, type_name, prop_name) =
     (let methods = filtered (get_section secs sec) in
      if methods = [] then (ls, entries)
      else (ls @ [type_decl type_name methods], entries @ [(prop_name, type_name)]))"

definition contract_loop ::
  "section_map \<Rightarrow> domain_config \<Rightarrow> string list \<times> (string \<times> string) list" where
  "contract_loop secs config =
     foldl (contract_step secs) ([''import type { IStorage } from '' @ [CHR 0x27] @ ''../storage''
                                    @ [CHR 0x27] @ '';'', ''''], []) config"

definition repository_entries :: "section_map \<Rightarrow> domain_config \<Rightarrow> (string \<times> string) list" where
  "repository_entries secs config = snd (contract_loop secs config)"

definition interface_line :: "string \<times> string \<Rightarrow> string" where
  "interface_line e = ''  '' @ fst e @ '': '' @ snd e @ '';''"

definition factory_line :: "string \<times> string \<Rightarrow> string" where
  "factory_line e = ''  '' @ fst e @ '': storage as '' @ snd e @ '',''"

definition contracts_lines :: "section_map \<Rightarrow> domain_config \<Rightarrow> string list" where
  "contracts_lines secs config =
     (let entries = repository_entries secs config in
      foldl (\<lambda>ls e. ls @ [factory_line e])
        (foldl (\<lambda>ls e. ls @ [interface_line e])
           (fst (contract_loop secs config) @ [''export interface StorageRepositories {''])
           entries
         @ [''}'' @ [CHR 0x0A],
            ''export const createStorageRepositories = (storage: IStorage): StorageRepositories => ({''])
        entries
      @ [''});'' @ [CHR 0x0A]])"

section \<open>The whole run\<close>



section \<open>Notions used to state the properties\<close>

text \<open>
  A section title has methods when the dictionary holds it with at least one entry other
  than \<^verbatim>\<open>constructor\<close>.
\<close>

definition has_methods :: "section_map \<Rightarrow> string \<Rightarrow> bool" where
  "has_methods secs sec =
     (case map_of secs sec of
        None \<Rightarrow> False
      | Some names \<Rightarrow> \<exists>n \<in> set names. n \<noteq> ''constructor'')"

text \<open>The configured domains whose section has methods, in configuration order.\<close>

definition emitted_domains :: "section_map \<Rightarrow> domain_config \<Rightarrow> domain_config" where
  "emitted_domains secs config = filter (\<lambda>d. has_methods secs (fst d)) config"

text \<open>The two lines that \<^verbatim>\<open>contracts_lines\<close> starts with.\<close>

definition header_lines :: "string list" where
  "header_lines =
     [''import type { IStorage } from '' @ [CHR 0x27] @ ''../storage'' @ [CHR 0x27] @ '';'', '''']"

text \<open>
  The reading of the interface body that the specification describes: every signature line,
  in source order, paired with the title of the nearest marker line before it, or with
  \<^verbatim>\<open>General\<close> when no marker precedes it.
\<close>

fun tagged_names :: "string \<Rightarrow> string list \<Rightarrow> (string \<times> string) list" where
  "tagged_names current [] = []"
| "tagged_names current (raw # rest) =
     (let line = strip raw in
      if line = [] then tagged_names current rest
      else if startswith line ''//'' then tagged_names (marker_title line) rest
      else (case signature_name line of
              Some name \<Rightarrow> (current, name) # tagged_names current rest
            | None \<Rightarrow> tagged_names current rest))"

section \<open>Loops in closed form\<close>

lemma foldl_append_lines: "foldl (\<lambda>ls x. ls @ f x) acc xs = acc @ concat (map f xs)"
  by (induction xs arbitrary: acc) simp_all

lemma foldl_append_line: "foldl (\<lambda>ls x. ls @ [f x]) acc xs = acc @ map f xs"
  by (induction xs arbitrary: acc) simp_all

lemma REPORT_LINES_closed:
  "REPORT_LINES secs mem db =
     [''SECTION_SUMMARY''] @ concat (map (summary_lines mem db) secs)
       @ [CHR 0x0A # ''DETAILED_METHODS''] @ concat (map (detail_lines mem db) secs)"
  by (simp add: REPORT_LINES_def foldl_append_lines)

lemma filtered_empty_iff: "filtered (get_section secs sec) = [] \<longleftrightarrow> \<not> has_methods secs sec"
  by (auto simp: filtered_def get_section_def has_methods_def filter_empty_conv split: option.splits)

lemma contract_step_closed:
  "contract_step secs (ls, es) d =
     (if has_methods secs (fst d)
      then (ls @ [type_decl (fst (snd d)) (filtered (get_section secs (fst d)))],
            es @ [(snd (snd d), fst (snd d))])
      else (ls, es))"
  by (cases d) (simp add: filtered_empty_iff Let_def)

lemma contract_fold_closed:
  "foldl (contract_step secs) (ls, es) config =
     (ls @ map (\<lambda>d. type_decl (fst (snd d)) (filtered (get_section secs (fst d))))
             (emitted_domains secs config),
      es @ map (\<lambda>d. (snd (snd d), fst (snd d))) (emitted_domains secs config))"
proof (induction config arbitrary: ls es)
  case Nil
  then show ?case by (simp add: emitted_domains_def)
next
  case (Cons d config)
  show ?case
    using Cons.IH by (simp add: contract_step_closed emitted_domains_def)
qed

lemma contract_loop_closed:
  "contract_loop secs config =
     (header_lines @ map (\<lambda>d. type_decl (fst (snd d)) (filtered (get_section secs (fst d))))
             (emitted_domains secs config),
      map (\<lambda>d. (snd (snd d), fst (snd d))) (emitted_domains secs config))"
  unfolding contract_loop_def
  by (simp add: contract_fold_closed header_lines_def)

section \<open>The total of a section in the report\<close>

lemma summary_head_in_report:
  assumes "(sec, names) \<in> set secs"
  shows "(''['' @ sec @ ''] total='' @ str_nat (length (filtered names))
            @ '' missing_mem='' @ str_nat (length (missing mem names))
            @ '' missing_db='' @ str_nat (length (missing db names)))
         \<in> set (REPORT_LINES secs mem db)"
proof -
  have "(''['' @ sec @ ''] total='' @ str_nat (length (filtered names))
            @ '' missing_mem='' @ str_nat (length (missing mem names))
            @ '' missing_db='' @ str_nat (length (missing db names)))
         \<in> set (summary_lines mem db (sec, names))"
    by (simp add: summary_lines_def Let_def)
  with assms show ?thesis
    unfolding REPORT_LINES_closed by (simp only: set_append set_concat set_map) blast
qed

lemma length_filtered: "length (filtered names) = length names - count_list names ''constructor''"
  unfolding filtered_def
proof (induction names)
  case Nil
  show ?case by simp
next
  case (Cons n names)
  have "count_list names ''constructor'' \<le> length names"
    by (rule count_le_length)
  with Cons show ?case by (auto simp: Suc_diff_le)
qed

lemma filtered_distinct_card:
  "distinct names \<Longrightarrow> length (filtered names) = card (set names - {''constructor''})"
proof -
  assume d: "distinct names"
  then have "distinct (filtered names)" by (simp add: filtered_def)
  then have "length (filtered names) = card (set (filtered names))"
    by (simp add: distinct_card)
  moreover have "set (filtered names) = set names - {''constructor''}"
    by (auto simp: filtered_def)
  ultimately show ?thesis by simp
qed

lemma sections_two_foo:
  "sections (''foo('' @ [CHR 0x0A] @ ''foo('') = [(''General'', [''foo'', ''foo''])]"
  by (simp add: sections_def scan_lines_def strip_def is_space_def signature_name_def
      is_ident_def setdefault_def Let_def)

text \<open>
  C2, as the script computes it. The summary line of a section carries
  \<^verbatim>\<open>len(filtered)\<close>: the number of entries of the section's list other than
  \<^verbatim>\<open>constructor\<close>, a repeated name counted each time. It is the number of distinct names
  when the section repeats no name.
\<close>

theorem total_counts_entries:
  assumes "(sec, names) \<in> set secs"
  shows "(''['' @ sec @ ''] total='' @ str_nat (length (filtered names))
            @ '' missing_mem='' @ str_nat (length (missing mem names))
            @ '' missing_db='' @ str_nat (length (missing db names)))
         \<in> set (REPORT_LINES secs mem db)
       \<and> length (filtered names) = length names - count_list names ''constructor''
       \<and> (distinct names \<longrightarrow> length (filtered names) = card (set names - {''constructor''}))"
  using summary_head_in_report[OF assms] length_filtered filtered_distinct_card by blast

theorem total_counts_entries_witness:
  "(''Users'', [''getUser'', ''constructor'', ''getUser''])
     \<in> set [(''Users'', [''getUser'', ''constructor'', ''getUser''])]
   \<and> ''[Users] total=2 missing_mem=0 missing_db=2''
         \<in> set (REPORT_LINES [(''Users'', [''getUser'', ''constructor'', ''getUser''])]
                  {''getUser''} {})
   \<and> length (filtered [''getUser'', ''constructor'', ''getUser'']) = 2"
  using total_counts_entries[of "''Users''" "[''getUser'', ''constructor'', ''getUser'']"
      "[(''Users'', [''getUser'', ''constructor'', ''getUser''])]" "{''getUser''}" "{}"]
  by (simp add: filtered_def missing_def str_nat.simps digit_def)

text \<open>
  C2 as stated fails: an interface body that declares \<^verbatim>\<open>foo\<close> on two lines gives a section
  with one distinct name, and the report says \<^verbatim>\<open>total=2\<close>.
\<close>

theorem total_distinct_counterexample:
  "REPORT_LINES (sections (''foo('' @ [CHR 0x0A] @ ''foo('')) {} {} ! 1
     = ''[General] total=2 missing_mem=2 missing_db=2''
   \<and> card (set (filtered (get_section (sections (''foo('' @ [CHR 0x0A] @ ''foo('')) ''General'')))
       = 1"
  unfolding sections_two_foo
  by (simp add: REPORT_LINES_def summary_lines_def detail_lines_def filtered_def missing_def
      get_section_def Let_def str_nat.simps digit_def)

section \<open>Missing lists\<close>

lemma missing_line_in_report:
  assumes "(sec, names) \<in> set secs"
  shows "missing mem names \<noteq> [] \<longrightarrow>
           (''  missing_mem_list='' @ join '', '' (missing mem names)) \<in> set (REPORT_LINES secs mem db)"
    and "missing db names \<noteq> [] \<longrightarrow>
           (''  missing_db_list='' @ join '', '' (missing db names)) \<in> set (REPORT_LINES secs mem db)"
proof -
  have "missing mem names \<noteq> [] \<longrightarrow>
           (''  missing_mem_list='' @ join '', '' (missing mem names))
             \<in> set (summary_lines mem db (sec, names))"
    by (simp add: summary_lines_def Let_def)
  with assms show "missing mem names \<noteq> [] \<longrightarrow>
           (''  missing_mem_list='' @ join '', '' (missing mem names)) \<in> set (REPORT_LINES secs mem db)"
    unfolding REPORT_LINES_closed by (simp only: set_append set_concat set_map) blast
  have "missing db names \<noteq> [] \<longrightarrow>
           (''  missing_db_list='' @ join '', '' (missing db names))
             \<in> set (summary_lines mem db (sec, names))"
    by (simp add: summary_lines_def Let_def)
  with assms show "missing db names \<noteq> [] \<longrightarrow>
           (''  missing_db_list='' @ join '', '' (missing db names)) \<in> set (REPORT_LINES secs mem db)"
    unfolding REPORT_LINES_closed by (simp only: set_append set_concat set_map) blast
qed

lemma missing_filter: "missing vocab names = [n \<leftarrow> names. n \<noteq> ''constructor'' \<and> n \<notin> vocab]"
  by (simp add: missing_def filtered_def conj_commute)

lemma missing_subseq: "subseq (missing vocab names) names"
  by (simp add: missing_filter)

text \<open>
  C6. For a section of the dictionary and the two vocabularies, the missing list is the
  section's list without \<^verbatim>\<open>constructor\<close> and without the names of the vocabulary, in the
  order of the section, and it is the list that the report prints.
\<close>

theorem missing_list_exact:
  assumes "(sec, names) \<in> set secs"
  shows "missing mem names = [n \<leftarrow> names. n \<noteq> ''constructor'' \<and> n \<notin> mem]
       \<and> missing db names = [n \<leftarrow> names. n \<noteq> ''constructor'' \<and> n \<notin> db]
       \<and> subseq (missing mem names) names \<and> subseq (missing db names) names
       \<and> (missing mem names \<noteq> [] \<longrightarrow>
            (''  missing_mem_list='' @ join '', '' (missing mem names))
              \<in> set (REPORT_LINES secs mem db))
       \<and> (missing db names \<noteq> [] \<longrightarrow>
            (''  missing_db_list='' @ join '', '' (missing db names))
              \<in> set (REPORT_LINES secs mem db))"
  using missing_line_in_report[OF assms] missing_filter missing_subseq by blast

text \<open>
  The example of the specification: methods \<^verbatim>\<open>a, b, c\<close> against the vocabulary
  \<^verbatim>\<open>{a, c}\<close> give exactly \<^verbatim>\<open>[b]\<close>.
\<close>

theorem missing_list_exact_witness:
  "(''S'', [''a'', ''b'', ''c'']) \<in> set [(''S'', [''a'', ''b'', ''c''])]
   \<and> missing {''a'', ''c''} [''a'', ''b'', ''c''] = [''b'']
   \<and> ''  missing_mem_list=b'' \<in> set (REPORT_LINES [(''S'', [''a'', ''b'', ''c''])] {''a'', ''c''} {})
   \<and> ''  missing_db_list=a, b, c'' \<in> set (REPORT_LINES [(''S'', [''a'', ''b'', ''c''])] {''a'', ''c''} {})"
  using missing_list_exact[of "''S''" "[''a'', ''b'', ''c'']" "[(''S'', [''a'', ''b'', ''c''])]"
      "{''a'', ''c''}" "{}"]
  by (simp add: missing_def filtered_def)

section \<open>Generated contracts: which types are emitted\<close>

lemma contracts_lines_closed:
  "contracts_lines secs config =
     header_lines
       @ map (\<lambda>d. type_decl (fst (snd d)) (filtered (get_section secs (fst d))))
           (emitted_domains secs config)
       @ [''export interface StorageRepositories {'']
       @ map interface_line (repository_entries secs config)
       @ [''}'' @ [CHR 0x0A],
          ''export const createStorageRepositories = (storage: IStorage): StorageRepositories => ({'']
       @ map factory_line (repository_entries secs config)
       @ [''});'' @ [CHR 0x0A]]"
  by (simp add: contracts_lines_def Let_def foldl_append_line contract_loop_closed)

lemma repository_entries_closed:
  "repository_entries secs config = map (\<lambda>d. (snd (snd d), fst (snd d))) (emitted_domains secs config)"
  by (simp add: repository_entries_def contract_loop_closed)

lemma startswith_append: "startswith (p @ s) p"
  by (induction p) simp_all

lemma type_decl_starts: "startswith (type_decl t ms) ''export type ''"
  unfolding type_decl_def by simp

lemma interface_line_starts: "\<not> startswith (interface_line e) ''export type ''"
  unfolding interface_line_def by simp

lemma factory_line_starts: "\<not> startswith (factory_line e) ''export type ''"
  unfolding factory_line_def by simp

lemma type_lines_of_contracts:
  "[l \<leftarrow> contracts_lines secs config. startswith l ''export type '']
     = map (\<lambda>d. type_decl (fst (snd d)) (filtered (get_section secs (fst d))))
         (emitted_domains secs config)"
proof -
  have a: "filter (\<lambda>l. startswith l ''export type '') (map (\<lambda>d. type_decl (f d) (g d)) ds)
             = map (\<lambda>d. type_decl (f d) (g d)) ds" for f g and ds :: domain_config
    by (induction ds) (simp_all add: type_decl_starts)
  have b: "filter (\<lambda>l. startswith l ''export type '') (map interface_line es) = []" for es
    by (induction es) (simp_all add: interface_line_starts)
  have c: "filter (\<lambda>l. startswith l ''export type '') (map factory_line es) = []" for es
    by (induction es) (simp_all add: factory_line_starts)
  show ?thesis
    unfolding contracts_lines_closed filter_append a b c
    by (simp add: header_lines_def)
qed

text \<open>
  C7. The narrowed types in the generated lines are those of the configured domains whose
  section title is in the dictionary with at least one method other than
  \<^verbatim>\<open>constructor\<close>, in configuration order, and no others: a title that is absent, a
  section without methods and a section outside the configuration give no type.
\<close>

theorem narrowed_type_emitted_iff:
  "[l \<leftarrow> contracts_lines secs config. startswith l ''export type '']
     = map (\<lambda>d. type_decl (fst (snd d)) (filtered (get_section secs (fst d))))
         [d \<leftarrow> config. has_methods secs (fst d)]
   \<and> (\<forall>sec. has_methods secs sec \<longleftrightarrow>
         (\<exists>names. map_of secs sec = Some names \<and> (\<exists>n \<in> set names. n \<noteq> ''constructor'')))
   \<and> (\<forall>sec. map_of secs sec = None \<longrightarrow> \<not> has_methods secs sec)
   \<and> (\<forall>sec. map_of secs sec = Some [] \<longrightarrow> \<not> has_methods secs sec)"
  using type_lines_of_contracts[of secs config]
  by (auto simp: emitted_domains_def has_methods_def split: option.splits)

text \<open>
  A configuration with a domain that has methods, one whose section is empty and one whose
  section is absent; the section \<^verbatim>\<open>Invoices\<close> is not configured.
\<close>

theorem narrowed_type_emitted_iff_witness:
  "[l \<leftarrow> contracts_lines
           [(''Users'', [''getUser'', ''createUser'']), (''Invoices'', [''getInvoice'']), (''Deals'', [])]
           [(''Users'', ''UserRepository'', ''users''), (''Deals'', ''DealRepository'', ''deals''),
            (''Messages'', ''MessageRepository'', ''messages'')].
      startswith l ''export type '']
     = [type_decl ''UserRepository'' [''getUser'', ''createUser'']]
   \<and> map_of [(''Users'', [''getUser'', ''createUser'']), (''Invoices'', [''getInvoice'']), (''Deals'', [])]
        ''Messages'' = None
   \<and> \<not> has_methods
          [(''Users'', [''getUser'', ''createUser'']), (''Invoices'', [''getInvoice'']), (''Deals'', [])]
          ''Messages''
   \<and> map_of [(''Users'', [''getUser'', ''createUser'']), (''Invoices'', [''getInvoice'']), (''Deals'', [])]
        ''Deals'' = Some []
   \<and> \<not> has_methods
          [(''Users'', [''getUser'', ''createUser'']), (''Invoices'', [''getInvoice'']), (''Deals'', [])]
          ''Deals''"
  using narrowed_type_emitted_iff[of
      "[(''Users'', [''getUser'', ''createUser'']), (''Invoices'', [''getInvoice'']), (''Deals'', [])]"
      "[(''Users'', ''UserRepository'', ''users''), (''Deals'', ''DealRepository'', ''deals''),
        (''Messages'', ''MessageRepository'', ''messages'')]"]
  by (simp add: has_methods_def filtered_def get_section_def)

text \<open>
  C10. The aggregate interface and the factory are written from the same list
  \<^verbatim>\<open>repository_entries\<close>, which has one pair of property name and type name for each
  emitted narrowed type, in the same order, and none for a skipped domain.
\<close>

theorem aggregate_and_factory_agree:
  "contracts_lines secs config =
     header_lines
       @ map (\<lambda>d. type_decl (fst (snd d)) (filtered (get_section secs (fst d))))
           (emitted_domains secs config)
       @ [''export interface StorageRepositories {'']
       @ map interface_line (repository_entries secs config)
       @ [''}'' @ [CHR 0x0A],
          ''export const createStorageRepositories = (storage: IStorage): StorageRepositories => ({'']
       @ map factory_line (repository_entries secs config)
       @ [''});'' @ [CHR 0x0A]]
   \<and> repository_entries secs config
       = map (\<lambda>d. (snd (snd d), fst (snd d))) [d \<leftarrow> config. has_methods secs (fst d)]
   \<and> length (repository_entries secs config)
       = length [l \<leftarrow> contracts_lines secs config. startswith l ''export type '']"
  using contracts_lines_closed[of secs config] repository_entries_closed[of secs config]
    type_lines_of_contracts[of secs config]
  by (simp add: emitted_domains_def)

text \<open>
  The generated lines for one domain with methods and one without.
\<close>

theorem aggregate_and_factory_agree_witness:
  "contracts_lines
     [(''Users'', [''getUser'', ''createUser'']), (''Invoices'', [''getInvoice'']), (''Deals'', [])]
     [(''Users'', ''UserRepository'', ''users''), (''Deals'', ''DealRepository'', ''deals'')]
   = header_lines
       @ [type_decl ''UserRepository'' [''getUser'', ''createUser'']]
       @ [''export interface StorageRepositories {'']
       @ [''  users: UserRepository;'']
       @ [''}'' @ [CHR 0x0A],
          ''export const createStorageRepositories = (storage: IStorage): StorageRepositories => ({'']
       @ [''  users: storage as UserRepository,'']
       @ [''});'' @ [CHR 0x0A]]
   \<and> repository_entries
        [(''Users'', [''getUser'', ''createUser'']), (''Invoices'', [''getInvoice'']), (''Deals'', [])]
        [(''Users'', ''UserRepository'', ''users''), (''Deals'', ''DealRepository'', ''deals'')]
       = [(''users'', ''UserRepository'')]"
  using aggregate_and_factory_agree[of
      "[(''Users'', [''getUser'', ''createUser'']), (''Invoices'', [''getInvoice'']), (''Deals'', [])]"
      "[(''Users'', ''UserRepository'', ''users''), (''Deals'', ''DealRepository'', ''deals'')]"]
  by (simp add: has_methods_def emitted_domains_def filtered_def get_section_def
      interface_line_def factory_line_def)

section \<open>Sections: the scan of the interface body\<close>

lemma get_section_setdefault [simp]: "get_section (setdefault secs k) t = get_section secs t"
  by (auto simp: get_section_def setdefault_def map_add_def split: option.splits)

lemma keys_setdefault: "k \<in> fst ` set (setdefault secs k)"
  by (simp add: setdefault_def)

lemma keys_append_to [simp]: "map fst (append_to secs k v) = map fst secs"
  by (induction secs k v rule: append_to.induct) simp_all

lemma get_section_append_to:
  "k \<in> fst ` set secs \<Longrightarrow>
     get_section (append_to secs k v) t = (if t = k then get_section secs t @ [v] else get_section secs t)"
proof (induction secs)
  case Nil
  then show ?case by simp
next
  case (Cons e secs)
  obtain k' vs where e: "e = (k', vs)" by (cases e)
  show ?case
  proof (cases "k' = k")
    case True
    with e show ?thesis by (simp add: get_section_def)
  next
    case False
    with Cons.prems e have "k \<in> fst ` set secs" by auto
    from Cons.IH[OF this] False e show ?thesis by (auto simp: get_section_def split: if_splits)
  qed
qed

lemma distinct_setdefault: "distinct (map fst secs) \<Longrightarrow> distinct (map fst (setdefault secs k))"
  by (simp add: setdefault_def)

lemma prefix_keys_setdefault: "prefix (map fst secs) (map fst (setdefault secs k))"
  by (simp add: setdefault_def)

lemma entries_append_to:
  "k \<in> fst ` set secs \<Longrightarrow>
     length (concat (map snd (append_to secs k v))) = Suc (length (concat (map snd secs)))"
  by (induction secs k v rule: append_to.induct) auto

lemma entries_setdefault [simp]:
  "concat (map snd (setdefault secs k)) = concat (map snd secs)"
  by (simp add: setdefault_def)

lemma signature_name_nonempty:
  assumes "signature_name line = Some name"
  shows "line \<noteq> []" and "\<not> startswith line ''//''" and "name \<noteq> []" and "\<forall>c \<in> set name. is_ident c"
proof -
  from assms have n: "name = takeWhile is_ident line" and ne: "takeWhile is_ident line \<noteq> []"
    by (auto simp: signature_name_def Let_def split: if_splits)
  from ne show "line \<noteq> []" by auto
  from n ne show "name \<noteq> []" by simp
  from n show "\<forall>c \<in> set name. is_ident c" by (auto dest: set_takeWhileD)
  from ne obtain c cs where l: "line = c # cs" and c: "is_ident c"
    by (cases line) (auto split: if_splits)
  from c have "c \<noteq> CHR ''/''" by (auto simp: is_ident_def)
  with l show "\<not> startswith line ''//''" by simp
qed

lemma step_signature:
  "signature_name (strip raw) = Some name \<Longrightarrow>
     section_step (secs, cur) raw = (append_to (setdefault secs cur) cur name, cur)"
  using signature_name_nonempty(1,2)[of "strip raw" name] by (simp add: Let_def)

lemma step_marker:
  "startswith (strip raw) ''//'' \<Longrightarrow>
     section_step (secs, cur) raw
       = (setdefault secs (marker_title (strip raw)), marker_title (strip raw))"
  by (auto simp: Let_def)

lemma step_cases:
  obtains (skip) "section_step (secs, cur) raw = (secs, cur)" "tagged_names cur (raw # rest) = tagged_names cur rest"
  | (marker) "section_step (secs, cur) raw = (setdefault secs (marker_title (strip raw)), marker_title (strip raw))"
             "tagged_names cur (raw # rest) = tagged_names (marker_title (strip raw)) rest"
  | (sig) name where "section_step (secs, cur) raw = (append_to (setdefault secs cur) cur name, cur)"
             "tagged_names cur (raw # rest) = (cur, name) # tagged_names cur rest"
proof -
  consider (a) "strip raw = []"
    | (b) "strip raw \<noteq> []" "startswith (strip raw) ''//''"
    | (c) "strip raw \<noteq> []" "\<not> startswith (strip raw) ''//''" "signature_name (strip raw) = None"
    | (d) name where "strip raw \<noteq> []" "\<not> startswith (strip raw) ''//''"
        "signature_name (strip raw) = Some name"
    by (cases "signature_name (strip raw)") auto
  then show thesis
  proof cases
    case a
    then show ?thesis by (intro skip) (simp_all add: Let_def)
  next
    case b
    then show ?thesis by (intro marker) (simp_all add: Let_def)
  next
    case c
    then show ?thesis by (intro skip) (simp_all add: Let_def)
  next
    case (d name)
    then show ?thesis by (intro sig[of name]) (simp_all add: Let_def)
  qed
qed

lemma scan_get_section:
  "get_section (fst (foldl section_step (secs, cur) ls)) t
     = get_section secs t @ map snd (filter (\<lambda>p. fst p = t) (tagged_names cur ls))"
proof (induction ls arbitrary: secs cur)
  case Nil
  show ?case by simp
next
  case (Cons raw ls)
  show ?case
  proof (cases rule: step_cases[of secs cur raw ls])
    case skip
    then show ?thesis using Cons.IH[of secs cur] by simp
  next
    case marker
    then show ?thesis using Cons.IH[of "setdefault secs (marker_title (strip raw))" "marker_title (strip raw)"]
      by simp
  next
    case (sig name)
    then show ?thesis using Cons.IH[of "append_to (setdefault secs cur) cur name" cur]
      by (simp add: get_section_append_to keys_setdefault del: tagged_names.simps)
  qed
qed

lemma scan_distinct:
  "distinct (map fst secs) \<Longrightarrow> distinct (map fst (fst (foldl section_step (secs, cur) ls)))"
proof (induction ls arbitrary: secs cur)
  case Nil
  then show ?case by simp
next
  case (Cons raw ls)
  show ?case
  proof (cases rule: step_cases[of secs cur raw ls])
    case skip
    then show ?thesis using Cons by simp
  next
    case marker
    then show ?thesis using Cons.IH[OF distinct_setdefault[OF Cons.prems]] by simp
  next
    case (sig name)
    have "distinct (map fst (append_to (setdefault secs cur) cur name))"
      using distinct_setdefault[OF Cons.prems] by simp
    from Cons.IH[OF this] sig show ?thesis by simp
  qed
qed

lemma scan_prefix_keys:
  "prefix (map fst secs) (map fst (fst (foldl section_step (secs, cur) ls)))"
proof (induction ls arbitrary: secs cur)
  case Nil
  show ?case by simp
next
  case (Cons raw ls)
  show ?case
  proof (cases rule: step_cases[of secs cur raw ls])
    case skip
    then show ?thesis using Cons by simp
  next
    case marker
    then show ?thesis
      using Cons.IH[of "setdefault secs (marker_title (strip raw))" "marker_title (strip raw)"]
        prefix_keys_setdefault[of secs "marker_title (strip raw)"] prefix_order.trans
      by fastforce
  next
    case (sig name)
    have "prefix (map fst secs) (map fst (append_to (setdefault secs cur) cur name))"
      using prefix_keys_setdefault[of secs cur] by simp
    with Cons.IH[of "append_to (setdefault secs cur) cur name" cur] sig show ?thesis
      using prefix_order.trans by fastforce
  qed
qed

lemma scan_entries:
  "length (concat (map snd (fst (foldl section_step (secs, cur) ls))))
     = length (concat (map snd secs)) + length (tagged_names cur ls)"
proof (induction ls arbitrary: secs cur)
  case Nil
  show ?case by simp
next
  case (Cons raw ls)
  show ?case
  proof (cases rule: step_cases[of secs cur raw ls])
    case skip
    then show ?thesis using Cons.IH[of secs cur] by simp
  next
    case marker
    then show ?thesis
      using Cons.IH[of "setdefault secs (marker_title (strip raw))" "marker_title (strip raw)"]
      by simp
  next
    case (sig name)
    then show ?thesis using Cons.IH[of "append_to (setdefault secs cur) cur name" cur]
      by (simp add: entries_append_to keys_setdefault del: tagged_names.simps)
  qed
qed

lemma scan_keys_tagged:
  "(t, n) \<in> set (tagged_names cur ls) \<Longrightarrow> t \<in> set (map fst (fst (foldl section_step (secs, cur) ls)))"
proof (induction ls arbitrary: secs cur)
  case Nil
  then show ?case by simp
next
  case (Cons raw ls)
  show ?case
  proof (cases rule: step_cases[of secs cur raw ls])
    case skip
    then show ?thesis using Cons by simp
  next
    case marker
    then show ?thesis using Cons by simp
  next
    case (sig name)
    show ?thesis
    proof (cases "(t, n) \<in> set (tagged_names cur ls)")
      case True
      from Cons.IH[OF this] sig show ?thesis by simp
    next
      case False
      with Cons.prems sig have "t = cur" by simp
      have "cur \<in> set (map fst (append_to (setdefault secs cur) cur name))"
        using keys_setdefault[of cur secs] by simp
      with scan_prefix_keys[of "append_to (setdefault secs cur) cur name" cur ls]
      have "cur \<in> set (map fst (fst (foldl section_step (append_to (setdefault secs cur) cur name, cur) ls)))"
        using set_mono_prefix by blast
      with sig \<open>t = cur\<close> show ?thesis by simp
    qed
  qed
qed

text \<open>
  C5, as the script behaves. Every signature line of the body is recorded once, in the
  section titled by the nearest marker line before it or in \<^verbatim>\<open>General\<close>: the list of a
  title is the names of the signature lines tagged with that title, in source order, the
  titles are distinct, and the sections hold as many entries as the body has signature
  lines. A name declared on lines under two different markers is in both sections.
\<close>

theorem signature_lines_partitioned:
  "get_section (sections body) title
     = map snd (filter (\<lambda>p. fst p = title) (tagged_names ''General'' (split_on (CHR 0x0A) body)))
   \<and> distinct (map fst (sections body))
   \<and> length (concat (map snd (sections body)))
       = length (tagged_names ''General'' (split_on (CHR 0x0A) body))
   \<and> (\<forall>p \<in> set (tagged_names ''General'' (split_on (CHR 0x0A) body)).
         fst p \<in> set (map fst (sections body)))"
proof -
  have a: "get_section (sections body) title
     = map snd (filter (\<lambda>p. fst p = title) (tagged_names ''General'' (split_on (CHR 0x0A) body)))"
    unfolding sections_def scan_lines_def
    using scan_get_section[of "[]" "''General''" "split_on (CHR 0x0A) body" title]
    by (simp add: get_section_def)
  have b: "distinct (map fst (sections body))"
    unfolding sections_def scan_lines_def by (rule scan_distinct) simp
  have c: "length (concat (map snd (sections body)))
       = length (tagged_names ''General'' (split_on (CHR 0x0A) body))"
    unfolding sections_def scan_lines_def
    using scan_entries[of "[]" "''General''" "split_on (CHR 0x0A) body"] by simp
  have d: "fst p \<in> set (map fst (sections body))"
    if "p \<in> set (tagged_names ''General'' (split_on (CHR 0x0A) body))" for p
    unfolding sections_def scan_lines_def
    using scan_keys_tagged[of "fst p" "snd p" "''General''" "split_on (CHR 0x0A) body" "[]"] that
    by simp
  from a b c d show ?thesis by blast
qed

text \<open>
  A body with the same name under two markers.
\<close>

theorem signature_lines_partitioned_witness:
  "get_section (sections (''// A'' @ [CHR 0x0A] @ ''foo(): X;'' @ [CHR 0x0A] @ ''// B'' @ [CHR 0x0A] @ ''foo(): X;'')) ''B''
     = [''foo'']
   \<and> tagged_names ''General'' (split_on (CHR 0x0A)
        (''// A'' @ [CHR 0x0A] @ ''foo(): X;'' @ [CHR 0x0A] @ ''// B'' @ [CHR 0x0A] @ ''foo(): X;''))
     = [(''A'', ''foo''), (''B'', ''foo'')]
   \<and> length (concat (map snd (sections
        (''// A'' @ [CHR 0x0A] @ ''foo(): X;'' @ [CHR 0x0A] @ ''// B'' @ [CHR 0x0A] @ ''foo(): X;'')))) = 2"
proof -
  have t: "tagged_names ''General'' (split_on (CHR 0x0A)
        (''// A'' @ [CHR 0x0A] @ ''foo(): X;'' @ [CHR 0x0A] @ ''// B'' @ [CHR 0x0A] @ ''foo(): X;''))
     = [(''A'', ''foo''), (''B'', ''foo'')]"
    by (simp add: strip_def is_space_def signature_name_def is_ident_def marker_title_def Let_def)
  show ?thesis
    using signature_lines_partitioned[of
      "''// A'' @ [CHR 0x0A] @ ''foo(): X;'' @ [CHR 0x0A] @ ''// B'' @ [CHR 0x0A] @ ''foo(): X;''" "''B''"]
    unfolding t by simp
qed

text \<open>
  C5 as stated fails: the name \<^verbatim>\<open>foo\<close>, declared under marker \<^verbatim>\<open>A\<close> and again under
  marker \<^verbatim>\<open>B\<close>, is in the lists of two sections.
\<close>

theorem name_in_two_sections_counterexample:
  "sections (''// A'' @ [CHR 0x0A] @ ''foo(): X;'' @ [CHR 0x0A] @ ''// B'' @ [CHR 0x0A] @ ''foo(): X;'')
     = [(''A'', [''foo'']), (''B'', [''foo''])]"
  by (simp add: sections_def scan_lines_def strip_def is_space_def signature_name_def
      is_ident_def setdefault_def marker_title_def Let_def)

lemma setdefault_present: "k \<in> set (map fst secs) \<Longrightarrow> setdefault secs k = secs"
  by (simp add: setdefault_def)

lemma scan_lines_append: "scan_lines (ls @ rest) = foldl section_step (scan_lines ls) rest"
  by (simp add: scan_lines_def)

lemma scan_lines_distinct: "distinct (map fst (fst (scan_lines ls)))"
  unfolding scan_lines_def by (rule scan_distinct) simp

lemma scan_prefix_section:
  "prefix (get_section secs t) (get_section (fst (foldl section_step (secs, cur) ls)) t)"
  by (simp add: scan_get_section)

text \<open>
  C9. When a marker line repeats a title that the dictionary already holds, the dictionary
  is unchanged and only \<^verbatim>\<open>current\<close> moves; a signature line after it appends its name to
  the entry of that title and touches no other entry and no key. Whatever follows, the keys
  stay distinct, the keys collected so far stay in front in their order, and every list
  collected so far stays a prefix of the final one.
\<close>

theorem repeated_marker_keeps_entry:
  assumes "scan_lines ls = (secs, cur)"
    and "startswith (strip raw) ''//''"
    and "marker_title (strip raw) = title"
    and "title \<in> set (map fst secs)"
  shows "scan_lines (ls @ [raw]) = (secs, title)
       \<and> (signature_name (strip raw') = Some name \<longrightarrow>
            scan_lines (ls @ [raw, raw']) = (append_to secs title name, title)
            \<and> get_section (append_to secs title name) title = get_section secs title @ [name]
            \<and> (\<forall>t. t \<noteq> title \<longrightarrow> get_section (append_to secs title name) t = get_section secs t)
            \<and> map fst (append_to secs title name) = map fst secs)
       \<and> distinct (map fst (fst (scan_lines (ls @ raw # rest))))
       \<and> prefix (map fst secs) (map fst (fst (scan_lines (ls @ raw # rest))))
       \<and> (\<forall>t. prefix (get_section secs t) (get_section (fst (scan_lines (ls @ raw # rest))) t))"
proof -
  have m: "scan_lines (ls @ [raw]) = (secs, title)"
    using assms step_marker[of raw secs cur]
    by (simp add: scan_lines_append setdefault_present del: section_step.simps)
  have s: "scan_lines (ls @ [raw, raw']) = (append_to secs title name, title)"
    if "signature_name (strip raw') = Some name"
  proof -
    have "scan_lines (ls @ [raw, raw']) = section_step (scan_lines (ls @ [raw])) raw'"
      by (simp add: scan_lines_def)
    with m assms(4) step_signature[OF that, of secs title] show ?thesis
      by (simp add: setdefault_present del: section_step.simps)
  qed
  have k: "title \<in> fst ` set secs" using assms(4) by simp
  have g: "get_section (append_to secs title name) title = get_section secs title @ [name]"
    using get_section_append_to[OF k, of name title] by simp
  have g': "get_section (append_to secs title name) t = get_section secs t" if "t \<noteq> title" for t
    using get_section_append_to[OF k, of name t] that by simp
  have r: "scan_lines (ls @ raw # rest) = foldl section_step (secs, cur) (raw # rest)"
    using assms(1) by (simp add: scan_lines_append)
  have d: "distinct (map fst (fst (scan_lines (ls @ raw # rest))))"
    by (rule scan_lines_distinct)
  have p: "prefix (map fst secs) (map fst (fst (scan_lines (ls @ raw # rest))))"
    unfolding r by (rule scan_prefix_keys)
  have q: "prefix (get_section secs t) (get_section (fst (scan_lines (ls @ raw # rest))) t)" for t
    unfolding r by (rule scan_prefix_section)
  from m s g g' d p q show ?thesis by (simp del: set_map)
qed

text \<open>
  Markers \<^verbatim>\<open>A\<close>, \<^verbatim>\<open>B\<close> and \<^verbatim>\<open>A\<close> again.
\<close>

theorem repeated_marker_keeps_entry_witness:
  "scan_lines [''// A'', ''foo(): X;'', ''// B'', ''bar(): Y;'']
     = ([(''A'', [''foo'']), (''B'', [''bar''])], ''B'')
   \<and> scan_lines ([''// A'', ''foo(): X;'', ''// B'', ''bar(): Y;''] @ [''  // A''])
     = ([(''A'', [''foo'']), (''B'', [''bar''])], ''A'')
   \<and> scan_lines ([''// A'', ''foo(): X;'', ''// B'', ''bar(): Y;''] @ [''  // A'', ''baz(): Z;''])
     = ([(''A'', [''foo'', ''baz'']), (''B'', [''bar''])], ''A'')"
proof -
  have a: "scan_lines [''// A'', ''foo(): X;'', ''// B'', ''bar(): Y;'']
     = ([(''A'', [''foo'']), (''B'', [''bar''])], ''B'')"
    by (simp add: scan_lines_def strip_def is_space_def signature_name_def
      is_ident_def setdefault_def marker_title_def Let_def)
  have b: "startswith (strip ''  // A'') ''//''"
    by (simp add: strip_def is_space_def)
  have c: "marker_title (strip ''  // A'') = ''A''"
    by (simp add: strip_def is_space_def marker_title_def)
  have d: "''A'' \<in> set (map fst [(''A'', [''foo'']), (''B'', [''bar''])])" by simp
  have e: "signature_name (strip ''baz(): Z;'') = Some ''baz''"
    by (simp add: strip_def is_space_def signature_name_def is_ident_def)
  show ?thesis
    using repeated_marker_keeps_entry[OF a b c d, of "''baz(): Z;''" "''baz''" "[]"] a e
    by simp
qed

section \<open>A construct whose body is not closed\<close>

lemma contains_tail: "\<not> contains (c # cs) p \<Longrightarrow> \<not> contains cs p"
  by simp













section \<open>The two declaration shapes\<close>

lemma ident_not_space: "is_ident c \<Longrightarrow> \<not> is_space c"
  by (auto simp: is_ident_def is_space_def)

lemma ident_not_paren: "is_ident c \<Longrightarrow> c \<noteq> CHR ''(''"
  by (auto simp: is_ident_def)

lemma ident_not_slash: "is_ident c \<Longrightarrow> c \<noteq> CHR ''/''"
  by (auto simp: is_ident_def)

lemma strip_shape:
  assumes "\<forall>c \<in> set ind. is_space c" and "\<not> is_space a" and "\<not> is_space z"
  shows "strip (ind @ a # mid @ z # tail) = a # mid @ z # rev (dropWhile is_space (rev tail))"
proof -
  have "dropWhile is_space (ind @ a # mid @ z # tail) = a # mid @ z # tail"
    using assms(1,2) by (simp add: dropWhile_append2)
  moreover have "dropWhile is_space (rev (a # mid @ z # tail))
      = dropWhile is_space (rev tail) @ z # rev mid @ [a]"
    using assms(3) dropWhile_append3[of is_space z "rev tail" "rev mid @ [a]"] by simp
  ultimately show ?thesis by (simp add: strip_def)
qed

lemma strip_shape1:
  assumes "\<forall>c \<in> set ind. is_space c" and "\<not> is_space z"
  shows "strip (ind @ z # tail) = z # rev (dropWhile is_space (rev tail))"
proof -
  have "dropWhile is_space (ind @ z # tail) = z # tail"
    using assms by (simp add: dropWhile_append2)
  moreover have "dropWhile is_space (rev (z # tail)) = dropWhile is_space (rev tail) @ [z]"
    using assms(2) dropWhile_append3[of is_space z "rev tail" "[]"] by simp
  ultimately show ?thesis by (simp add: strip_def)
qed

lemma split_on_nonempty: "split_on d s \<noteq> []"
  by (induction s) (auto split: list.splits)

lemma hd_split_on: "d \<notin> set a \<Longrightarrow> hd (split_on d (a @ d # r)) = a"
proof (induction a)
  case Nil
  show ?case by simp
next
  case (Cons c a)
  then have "hd (split_on d (a @ d # r)) = a" and "c \<noteq> d" by auto
  with split_on_nonempty[of d "a @ d # r"] show ?case
    by (cases "split_on d (a @ d # r)") auto
qed

lemma split_ws_acc_word:
  "\<forall>c \<in> set w. \<not> is_space c \<Longrightarrow> split_ws_acc acc (w @ rest) = split_ws_acc (rev w @ acc) rest"
  by (induction w arbitrary: acc) simp_all

lemma split_ws_async:
  assumes "name \<noteq> []" and "\<forall>c \<in> set name. is_ident c"
  shows "split_ws (''async '' @ name) = [''async'', name]"
proof -
  have "\<forall>c \<in> set name. \<not> is_space c" using assms(2) ident_not_space by blast
  from split_ws_acc_word[OF this, of "[]" "[]"] assms(1)
  have "split_ws_acc [] name = [name]" by simp
  then show ?thesis by (simp add: split_ws_def is_space_def)
qed

lemma startswith_contains: "startswith s p \<Longrightarrow> contains s p"
  by (cases s) simp_all

lemma startswith_prefix: "startswith s (p @ q) \<Longrightarrow> startswith s p"
  by (induction s p rule: startswith.induct) simp_all

lemma dot_star_close_args:
  assumes "CHR 0x0A \<notin> set args" and "\<forall>c \<in> set ws. is_space c"
  shows "dot_star_close (args @ CHR '')'' # ws @ CHR ''{'' # tail)"
  using assms(1)
proof (induction args)
  case Nil
  have "dropWhile is_space (ws @ CHR ''{'' # tail) = CHR ''{'' # tail"
    using assms(2) by (simp add: dropWhile_append2 is_space_def)
  then show ?case by simp
next
  case (Cons a args)
  then show ?case by auto
qed

lemma ident_prefix:
  assumes "\<forall>c \<in> set name. is_ident c"
  shows "takeWhile is_ident (name @ CHR ''('' # r) = name"
    and "dropWhile is_ident (name @ CHR ''('' # r) = CHR ''('' # r"
  using assms by (simp_all add: takeWhile_append2 dropWhile_append2 is_ident_def)

lemma method_name_sync:
  assumes "name \<noteq> []" and "\<forall>c \<in> set name. is_ident c"
    and "\<forall>c \<in> set ind. is_space c" and "\<forall>c \<in> set ws. is_space c"
    and "CHR 0x0A \<notin> set args"
    and "line = ind @ name @ ''('' @ args @ '')'' @ ws @ ''{'' @ tail"
    and "\<not> contains (strip line) ''constructor''" and "\<not> contains (strip line) ''async''"
  shows "method_name line = Some name"
proof -
  obtain a name' where n: "name = a # name'" using assms(1) by (cases name) auto
  with assms(2) have a: "is_ident a" by simp
  define T where "T = rev (dropWhile is_space (rev tail))"
  have "strip line = a # (name' @ ''('' @ args @ '')'' @ ws) @ CHR ''{'' # T"
    unfolding T_def assms(6) n
    using strip_shape[OF assms(3) ident_not_space[OF a], of "CHR ''{''"
        "name' @ ''('' @ args @ '')'' @ ws" tail]
    by (simp add: is_space_def)
  then have s: "strip line = name @ CHR ''('' # args @ CHR '')'' # ws @ CHR ''{'' # T"
    by (simp add: n)
  have 1: "strip line \<noteq> []" using s n by simp
  have 2: "\<not> startswith (strip line) ''//''"
    using s n ident_not_slash[OF a] by simp
  have 3: "\<not> startswith (strip line) ''async ''"
    using assms(8) startswith_prefix[of "strip line" "''async''" "'' ''"] startswith_contains
    by auto
  have 4: "sync_shape (strip line)"
    unfolding sync_shape_def s
    using ident_prefix[OF assms(2)] assms(1) dot_star_close_args[OF assms(5,4)]
    by (simp add: Let_def)
  have 5: "hd (split_on (CHR ''('') (strip line)) = name"
    unfolding s using hd_split_on[of "CHR ''(''" name] assms(2) ident_not_paren by blast
  from 1 2 3 4 5 assms(7,8) show ?thesis
    by (simp add: method_name_def Let_def)
qed

lemma method_name_async:
  assumes "name \<noteq> []" and "\<forall>c \<in> set name. is_ident c"
    and "\<forall>c \<in> set ind. is_space c"
    and "line = ind @ ''async '' @ name @ ''('' @ rest"
  shows "method_name line = Some name"
proof -
  define T where "T = rev (dropWhile is_space (rev rest))"
  have "strip line = CHR ''a'' # (''sync '' @ name) @ CHR ''('' # T"
    unfolding T_def assms(4)
    using strip_shape[OF assms(3), of "CHR ''a''" "CHR ''(''" "''sync '' @ name" rest]
    by (simp add: is_space_def)
  then have s: "strip line = (''async '' @ name) @ CHR ''('' # T" by simp
  have 1: "strip line \<noteq> []" using s by simp
  have 2: "\<not> startswith (strip line) ''//''" using s by simp
  have 3: "startswith (strip line) ''async ''" using s by simp
  have "CHR ''('' \<notin> set (''async '' @ name)"
    using assms(2) ident_not_paren by auto
  then have 5: "hd (split_on (CHR ''('') (strip line)) = ''async '' @ name"
    unfolding s by (rule hd_split_on)
  from 1 2 3 show ?thesis
    unfolding method_name_def Let_def 5 split_ws_async[OF assms(1,2)] by simp
qed

lemma method_name_skipped:
  "\<not> startswith (strip line) ''async '' \<Longrightarrow>
     contains (strip line) ''async'' \<or> contains (strip line) ''constructor'' \<Longrightarrow>
     method_name line = None"
  by (auto simp: method_name_def Let_def)

lemma foldl_add_method:
  "foldl add_method acc ls = acc \<union> {n. \<exists>l \<in> set ls. method_name l = Some n}"
proof (induction ls arbitrary: acc)
  case Nil
  show ?case by simp
next
  case (Cons l ls)
  show ?case
    unfolding foldl_Cons Cons.IH
    by (cases "method_name l") (auto simp: add_method_def)
qed

lemma extract_methods_lines:
  "search_class class_name text = Some block \<Longrightarrow>
     extract_methods text class_name
       = {n. \<exists>l \<in> set (split_on (CHR 0x0A) block). method_name l = Some n}"
  by (simp add: extract_methods_def foldl_add_method)

lemma startswith_decompose: "startswith s p \<Longrightarrow> \<exists>r. s = p @ r"
  by (induction s p rule: startswith.induct) simp_all

lemma async_words_nonempty:
  "startswith stripped ''async '' \<Longrightarrow> split_ws (hd (split_on (CHR ''('') stripped)) \<noteq> []"
proof -
  assume "startswith stripped ''async ''"
  then obtain r where s: "stripped = ''async '' @ r"
    using startswith_decompose by blast
  have w: "split_ws_acc [] (''async '' @ x) \<noteq> []" for x
    by (simp add: is_space_def)
  show ?thesis
  proof (cases "CHR ''('' \<in> set r")
    case True
    then obtain a b where r: "r = a @ CHR ''('' # b" and "CHR ''('' \<notin> set a"
      by (auto dest: split_list_first)
    then have "hd (split_on (CHR ''('') stripped) = ''async '' @ a"
      using hd_split_on[of "CHR ''(''" "''async '' @ a" b] s by simp
    with w[of a] show ?thesis by (simp add: split_ws_def)
  next
    case False
    have "d \<notin> set x \<Longrightarrow> split_on d x = [x]" for d x
      by (induction x) auto
    from this[of "CHR ''(''" "''async '' @ r"] False s
    have "hd (split_on (CHR ''('') stripped) = ''async '' @ r" by simp
    with w[of r] show ?thesis by (simp add: split_ws_def)
  qed
qed

lemma sync_not_async_prefix:
  assumes "\<forall>c \<in> set name. is_ident c"
  shows "\<not> startswith (name @ CHR ''('' # r) ''async ''"
proof
  assume "startswith (name @ CHR ''('' # r) ''async ''"
  then obtain r' where e: "name @ CHR ''('' # r = ''async '' @ r'"
    using startswith_decompose by blast
  have "takeWhile is_ident (name @ CHR ''('' # r) = name"
    by (rule ident_prefix(1)[OF assms])
  moreover have "takeWhile is_ident (''async '' @ r') = ''async''"
    by (simp add: is_ident_def)
  ultimately have "name = ''async''" using e by simp
  with e show False by simp
qed

lemma strip_sync_line:
  assumes "name \<noteq> []" and "\<forall>c \<in> set name. is_ident c" and "\<forall>c \<in> set ind. is_space c"
  shows "strip (ind @ name @ ''('' @ args @ '')'' @ ws @ ''{'' @ tail)
           = name @ CHR ''('' # args @ CHR '')'' # ws @ CHR ''{'' # rev (dropWhile is_space (rev tail))"
proof -
  obtain a name' where n: "name = a # name'" using assms(1) by (cases name) auto
  with assms(2) have a: "is_ident a" by simp
  show ?thesis
    unfolding n
    using strip_shape[OF assms(3) ident_not_space[OF a], of "CHR ''{''"
        "name' @ ''('' @ args @ '')'' @ ws" tail]
    by (simp add: is_space_def)
qed

text \<open>
  C4, as the script behaves. For a name of letters, digits and underscores, the line
  \<^verbatim>\<open>async name(...\<close> always gives \<^verbatim>\<open>name\<close>. The line \<^verbatim>\<open>name(...) {\<close> gives the same
  \<^verbatim>\<open>name\<close> when the stripped line contains neither \<^verbatim>\<open>constructor\<close> nor \<^verbatim>\<open>async\<close>, and
  is skipped when it contains one of them. A line of the captured block that gives a name
  puts that name into the vocabulary.
\<close>

theorem both_shapes_same_name:
  assumes "regex_literal class_name"
    and "name \<noteq> []" and "\<forall>c \<in> set name. is_ident c"
    and "\<forall>c \<in> set ind. is_space c" and "\<forall>c \<in> set ws. is_space c"
    and "CHR 0x0A \<notin> set args"
    and "sync_line = ind @ name @ ''('' @ args @ '')'' @ ws @ ''{'' @ tail"
    and "async_line = ind @ ''async '' @ name @ ''('' @ rest"
  shows "method_name async_line = Some name
       \<and> (\<not> contains (strip sync_line) ''constructor'' \<and> \<not> contains (strip sync_line) ''async''
            \<longrightarrow> method_name sync_line = Some name)
       \<and> (contains (strip sync_line) ''constructor'' \<or> contains (strip sync_line) ''async''
            \<longrightarrow> method_name sync_line = None)
       \<and> (search_class class_name text = Some block
            \<and> async_line \<in> set (split_on (CHR 0x0A) block)
            \<longrightarrow> name \<in> extract_methods text class_name)
       \<and> (search_class class_name text = Some block
            \<and> sync_line \<in> set (split_on (CHR 0x0A) block)
            \<and> \<not> contains (strip sync_line) ''constructor'' \<and> \<not> contains (strip sync_line) ''async''
            \<longrightarrow> name \<in> extract_methods text class_name)"
proof -
  have a: "method_name async_line = Some name"
    by (rule method_name_async[OF assms(2,3,4,8)])
  have s: "method_name sync_line = Some name"
    if "\<not> contains (strip sync_line) ''constructor''" "\<not> contains (strip sync_line) ''async''"
    using method_name_sync[OF assms(2,3,4,5,6,7)] that by simp
  have "\<not> startswith (strip sync_line) ''async ''"
    unfolding assms(7) strip_sync_line[OF assms(2,3,4)]
    by (rule sync_not_async_prefix[OF assms(3)])
  then have n: "method_name sync_line = None"
    if "contains (strip sync_line) ''constructor'' \<or> contains (strip sync_line) ''async''"
    using method_name_skipped[of sync_line] that by blast
  have ea: "name \<in> extract_methods text class_name"
    if "search_class class_name text = Some block" "async_line \<in> set (split_on (CHR 0x0A) block)"
    using extract_methods_lines[OF that(1)] that(2) a by auto
  have es: "name \<in> extract_methods text class_name"
    if "search_class class_name text = Some block" "sync_line \<in> set (split_on (CHR 0x0A) block)"
      "\<not> contains (strip sync_line) ''constructor''" "\<not> contains (strip sync_line) ''async''"
    using extract_methods_lines[OF that(1)] that(2) s[OF that(3,4)] by auto
  from a s n ea es show ?thesis by blast
qed

lemma search_class_sync_text:
  "search_class ''A'' (''class A {'' @ [CHR 0x0A] @ ''  getUser(id) {'' @ [CHR 0x0A] @ ''}'')
     = Some ([CHR 0x0A] @ ''  getUser(id) {'')"
  by (simp add: match_class_def name_then_def is_space_def)

lemma search_class_async_text:
  "search_class ''A'' (''class A {'' @ [CHR 0x0A] @ ''  async getUser(id) {'' @ [CHR 0x0A] @ ''}'')
     = Some ([CHR 0x0A] @ ''  async getUser(id) {'')"
  by (simp add: match_class_def name_then_def is_space_def)

text \<open>
  The method \<^verbatim>\<open>getUser\<close> in both shapes.
\<close>

theorem both_shapes_same_name_witness:
  "regex_literal ''A''
   \<and> ''getUser'' \<in> extract_methods
      (''class A {'' @ [CHR 0x0A] @ ''  getUser(id) {'' @ [CHR 0x0A] @ ''}'') ''A''
   \<and> ''getUser'' \<in> extract_methods
      (''class A {'' @ [CHR 0x0A] @ ''  async getUser(id) {'' @ [CHR 0x0A] @ ''}'') ''A''
   \<and> method_name ''  getUser(id) {'' = Some ''getUser''
   \<and> method_name ''  async getUser(id) {'' = Some ''getUser''"
proof -
  have 0: "regex_literal ''A''" by (simp add: regex_literal_def)
  have 1: "''getUser'' \<noteq> []" by simp
  have 2: "\<forall>c \<in> set ''getUser''. is_ident c" by (simp add: is_ident_def)
  have 3: "\<forall>c \<in> set ''  ''. is_space c" by (simp add: is_space_def)
  have 4: "\<forall>c \<in> set '' ''. is_space c" by (simp add: is_space_def)
  have 5: "CHR 0x0A \<notin> set ''id''" by simp
  have 6: "''  getUser(id) {'' = ''  '' @ ''getUser'' @ ''('' @ ''id'' @ '')'' @ '' '' @ ''{'' @ []"
    by simp
  have 7: "''  async getUser(id) {'' = ''  '' @ ''async '' @ ''getUser'' @ ''('' @ ''id) {''"
    by simp
  have 8: "strip ''  getUser(id) {'' = ''getUser(id) {''"
    by (simp add: strip_def is_space_def)
  have 9: "\<not> contains ''getUser(id) {'' ''constructor''" "\<not> contains ''getUser(id) {'' ''async''"
    by simp_all
  have sl: "split_on (CHR 0x0A) ([CHR 0x0A] @ ''  getUser(id) {'') = [[], ''  getUser(id) {'']"
    "split_on (CHR 0x0A) ([CHR 0x0A] @ ''  async getUser(id) {'') = [[], ''  async getUser(id) {'']"
    by simp_all
  show ?thesis
    using both_shapes_same_name[OF 0 1 2 3 4 5 6 7, of
        "''class A {'' @ [CHR 0x0A] @ ''  getUser(id) {'' @ [CHR 0x0A] @ ''}''"
        "[CHR 0x0A] @ ''  getUser(id) {''"]
      both_shapes_same_name[OF 0 1 2 3 4 5 6 7, of
        "''class A {'' @ [CHR 0x0A] @ ''  async getUser(id) {'' @ [CHR 0x0A] @ ''}''"
        "[CHR 0x0A] @ ''  async getUser(id) {''"]
    unfolding search_class_sync_text search_class_async_text sl 8
    using 9 0 by simp
qed

text \<open>
  C4 as stated fails: the method \<^verbatim>\<open>asyncTask\<close> is in the vocabulary when declared in the
  asynchronous shape and absent when declared in the synchronous shape, because the
  synchronous branch rejects every line that contains \<^verbatim>\<open>async\<close>.
\<close>

theorem sync_name_with_async_counterexample:
  "extract_methods
      (''class A {'' @ [CHR 0x0A] @ ''  asyncTask() {'' @ [CHR 0x0A] @ ''}'') ''A'' = {}
   \<and> extract_methods
      (''class A {'' @ [CHR 0x0A] @ ''  async asyncTask() {'' @ [CHR 0x0A] @ ''}'') ''A''
       = {''asyncTask''}"
proof -
  have a: "search_class ''A'' (''class A {'' @ [CHR 0x0A] @ ''  asyncTask() {'' @ [CHR 0x0A] @ ''}'')
     = Some ([CHR 0x0A] @ ''  asyncTask() {'')"
    by (simp add: match_class_def name_then_def is_space_def)
  have b: "search_class ''A'' (''class A {'' @ [CHR 0x0A] @ ''  async asyncTask() {'' @ [CHR 0x0A] @ ''}'')
     = Some ([CHR 0x0A] @ ''  async asyncTask() {'')"
    by (simp add: match_class_def name_then_def is_space_def)
  have c: "strip [] = []" "strip ''  asyncTask() {'' = ''asyncTask() {''"
    "strip ''  async asyncTask() {'' = ''async asyncTask() {''"
    by (simp_all add: strip_def is_space_def)
  have d: "method_name [] = None" "method_name ''  asyncTask() {'' = None"
    "method_name ''  async asyncTask() {'' = Some ''asyncTask''"
    unfolding method_name_def Let_def c
    by (simp_all add: split_ws_def is_space_def)
  show ?thesis
    unfolding extract_methods_def a b
    by (simp add: add_method_def d)
qed

section \<open>What the outputs depend on\<close>






section \<open>The text that the class pattern captures\<close>

lemma greedy_close_sound:
  "greedy_close s = Some g \<Longrightarrow> \<exists>rest. s = g @ CHR 0x0A # CHR ''}'' # rest"
proof (induction s arbitrary: g)
  case Nil
  then show ?case by simp
next
  case (Cons c cs)
  show ?case
  proof (cases "greedy_close cs")
    case None
    with Cons.prems have g: "g = []" and c: "c = CHR 0x0A" and s: "startswith cs ''}''"
      by (auto split: if_splits)
    from s obtain r where "cs = ''}'' @ r" using startswith_decompose by blast
    with g c show ?thesis by simp
  next
    case (Some g')
    with Cons.prems have g: "g = c # g'" by simp
    from Cons.IH[OF Some] obtain rest where "cs = g' @ CHR 0x0A # CHR ''}'' # rest" by blast
    with g show ?thesis by simp
  qed
qed

lemma greedy_none_lazy_none: "greedy_close s = None \<Longrightarrow> lazy_open s = None"
proof (induction s)
  case Nil
  show ?case by simp
next
  case (Cons c cs)
  from Cons.prems have "greedy_close cs = None" by (auto split: option.splits)
  with Cons.IH show ?case by simp
qed

lemma lazy_open_sound:
  "lazy_open s = Some g \<Longrightarrow>
     \<exists>mid rest. s = mid @ CHR ''{'' # g @ CHR 0x0A # CHR ''}'' # rest \<and> CHR ''{'' \<notin> set mid"
proof (induction s)
  case Nil
  then show ?case by simp
next
  case (Cons c cs)
  show ?case
  proof (cases "c = CHR ''{'' \<and> greedy_close cs \<noteq> None")
    case True
    with Cons.prems have "greedy_close cs = Some g" by auto
    from greedy_close_sound[OF this] obtain rest where "cs = g @ CHR 0x0A # CHR ''}'' # rest"
      by blast
    with True have "c # cs = [] @ CHR ''{'' # g @ CHR 0x0A # CHR ''}'' # rest \<and> CHR ''{'' \<notin> set []"
      by simp
    then show ?thesis by blast
  next
    case False
    show ?thesis
    proof (cases "c = CHR ''{''")
      case True
      with False have "greedy_close cs = None" by simp
      with True Cons.prems greedy_none_lazy_none[of cs] show ?thesis by simp
    next
      case ne: False
      with Cons.prems have "lazy_open cs = Some g" by simp
      from Cons.IH[OF this] obtain mid rest
        where "cs = mid @ CHR ''{'' # g @ CHR 0x0A # CHR ''}'' # rest" and "CHR ''{'' \<notin> set mid"
        by blast
      with ne have "c # cs = (c # mid) @ CHR ''{'' # g @ CHR 0x0A # CHR ''}'' # rest
          \<and> CHR ''{'' \<notin> set (c # mid)" by simp
      then show ?thesis by blast
    qed
  qed
qed

lemma name_then_sound:
  assumes "name_then class_name s = Some g"
  shows "\<exists>mid rest. s = class_name @ mid @ CHR ''{'' # g @ CHR 0x0A # CHR ''}'' # rest
           \<and> CHR ''{'' \<notin> set mid"
proof -
  from assms have p: "startswith s class_name" and l: "lazy_open (drop (length class_name) s) = Some g"
    by (auto simp: name_then_def split: if_splits)
  from p obtain r where s: "s = class_name @ r" using startswith_decompose by blast
  with l have "lazy_open r = Some g" by simp
  from lazy_open_sound[OF this] s show ?thesis by auto
qed

lemma ws_then_sound:
  "ws_then class_name s = Some g \<Longrightarrow>
     \<exists>ws mid rest. s = ws @ class_name @ mid @ CHR ''{'' # g @ CHR 0x0A # CHR ''}'' # rest
       \<and> ws \<noteq> [] \<and> (\<forall>c \<in> set ws. is_space c) \<and> CHR ''{'' \<notin> set mid"
proof (induction s)
  case Nil
  then show ?case by simp
next
  case (Cons c cs)
  from Cons.prems have c: "is_space c" by (auto split: if_splits)
  show ?case
  proof (cases "ws_then class_name cs")
    case None
    with Cons.prems c have "name_then class_name cs = Some g" by simp
    from name_then_sound[OF this] obtain mid rest
      where "cs = class_name @ mid @ CHR ''{'' # g @ CHR 0x0A # CHR ''}'' # rest"
        and "CHR ''{'' \<notin> set mid" by blast
    with c have "c # cs = [c] @ class_name @ mid @ CHR ''{'' # g @ CHR 0x0A # CHR ''}'' # rest
        \<and> [c] \<noteq> [] \<and> (\<forall>x \<in> set [c]. is_space x) \<and> CHR ''{'' \<notin> set mid" by simp
    then show ?thesis by blast
  next
    case (Some g')
    with Cons.prems c have "g' = g" by simp
    with Some Cons.IH obtain ws mid rest
      where "cs = ws @ class_name @ mid @ CHR ''{'' # g @ CHR 0x0A # CHR ''}'' # rest"
        and "\<forall>x \<in> set ws. is_space x" and "CHR ''{'' \<notin> set mid" by blast
    with c have "c # cs = (c # ws) @ class_name @ mid @ CHR ''{'' # g @ CHR 0x0A # CHR ''}'' # rest
        \<and> c # ws \<noteq> [] \<and> (\<forall>x \<in> set (c # ws). is_space x) \<and> CHR ''{'' \<notin> set mid" by simp
    then show ?thesis by blast
  qed
qed

lemma match_class_sound:
  assumes "match_class class_name s = Some g"
  shows "\<exists>ws mid rest. s = ''class'' @ ws @ class_name @ mid @ CHR ''{'' # g @ CHR 0x0A # CHR ''}'' # rest
       \<and> ws \<noteq> [] \<and> (\<forall>c \<in> set ws. is_space c) \<and> CHR ''{'' \<notin> set mid"
proof -
  from assms have p: "startswith s ''class''" and w: "ws_then class_name (drop (length ''class'') s) = Some g"
    by (auto simp: match_class_def split: if_splits)
  from p obtain r where s: "s = ''class'' @ r" using startswith_decompose by blast
  with w have "ws_then class_name r = Some g" by simp
  from ws_then_sound[OF this] s show ?thesis by auto
qed

lemma search_class_sound:
  "search_class class_name s = Some g \<Longrightarrow>
     \<exists>pre ws mid rest.
       s = pre @ ''class'' @ ws @ class_name @ mid @ CHR ''{'' # g @ CHR 0x0A # CHR ''}'' # rest
       \<and> ws \<noteq> [] \<and> (\<forall>c \<in> set ws. is_space c) \<and> CHR ''{'' \<notin> set mid"
proof (induction s)
  case Nil
  then have "match_class class_name [] = Some g" by simp
  from match_class_sound[OF this] show ?case by simp
next
  case (Cons c cs)
  show ?case
  proof (cases "match_class class_name (c # cs)")
    case None
    with Cons.prems have "search_class class_name cs = Some g" by simp
    from Cons.IH[OF this] obtain pre ws mid rest
      where "cs = pre @ ''class'' @ ws @ class_name @ mid @ CHR ''{'' # g @ CHR 0x0A # CHR ''}'' # rest"
        and "ws \<noteq> []" and "\<forall>c \<in> set ws. is_space c" and "CHR ''{'' \<notin> set mid" by blast
    then have "c # cs = (c # pre) @ ''class'' @ ws @ class_name @ mid @ CHR ''{'' # g @ CHR 0x0A # CHR ''}'' # rest
        \<and> ws \<noteq> [] \<and> (\<forall>c \<in> set ws. is_space c) \<and> CHR ''{'' \<notin> set mid" by simp
    then show ?thesis by blast
  next
    case (Some g')
    with Cons.prems have "match_class class_name (c # cs) = Some g" by simp
    from match_class_sound[OF this] obtain ws mid rest
      where "c # cs = [] @ ''class'' @ ws @ class_name @ mid @ CHR ''{'' # g @ CHR 0x0A # CHR ''}'' # rest
        \<and> ws \<noteq> [] \<and> (\<forall>c \<in> set ws. is_space c) \<and> CHR ''{'' \<notin> set mid" by auto
    then show ?thesis by blast
  qed
qed

text \<open>
  C1, as the script behaves. When the pattern matches, the vocabulary is the set of names
  that the two shapes give on the lines of the captured group, all of them, whatever their
  depth of nesting; the group starts right after the first opening brace that follows the
  header \<^verbatim>\<open>class\<close>, whitespace, class name, and it is followed in the text by a line break
  and a closing brace. No name comes from the text before the header.
\<close>

theorem extracted_names_come_from_captured_lines:
  assumes "regex_literal class_name"
    and "search_class class_name text = Some block"
  shows "extract_methods text class_name
           = {n. \<exists>line \<in> set (split_on (CHR 0x0A) block). method_name line = Some n}
       \<and> (\<exists>pre ws mid rest.
             text = pre @ ''class'' @ ws @ class_name @ mid @ ''{'' @ block @ [CHR 0x0A] @ ''}'' @ rest
             \<and> ws \<noteq> [] \<and> (\<forall>c \<in> set ws. is_space c) \<and> CHR ''{'' \<notin> set mid)"
proof -
  from search_class_sound[OF assms(2)] obtain pre ws mid rest
    where "text = pre @ ''class'' @ ws @ class_name @ mid @ CHR ''{'' # block @ CHR 0x0A # CHR ''}'' # rest"
      and "ws \<noteq> []" and "\<forall>c \<in> set ws. is_space c" and "CHR ''{'' \<notin> set mid"
    by blast
  then have "text = pre @ ''class'' @ ws @ class_name @ mid @ ''{'' @ block @ [CHR 0x0A] @ ''}'' @ rest
             \<and> ws \<noteq> [] \<and> (\<forall>c \<in> set ws. is_space c) \<and> CHR ''{'' \<notin> set mid"
    by simp
  then have "\<exists>pre ws mid rest.
             text = pre @ ''class'' @ ws @ class_name @ mid @ ''{'' @ block @ [CHR 0x0A] @ ''}'' @ rest
             \<and> ws \<noteq> [] \<and> (\<forall>c \<in> set ws. is_space c) \<and> CHR ''{'' \<notin> set mid"
    by blast
  with extract_methods_lines[OF assms(2)] show ?thesis by (rule conjI)
qed

lemma nested_text_block:
  "search_class ''A''
     (''class A {'' @ [CHR 0x0A] @ ''  foo() {'' @ [CHR 0x0A] @ ''    class Inner {'' @ [CHR 0x0A]
        @ ''      bar() {'' @ [CHR 0x0A] @ ''      }'' @ [CHR 0x0A] @ ''    }'' @ [CHR 0x0A]
        @ ''  }'' @ [CHR 0x0A] @ ''}'')
   = Some ([CHR 0x0A] @ ''  foo() {'' @ [CHR 0x0A] @ ''    class Inner {'' @ [CHR 0x0A]
        @ ''      bar() {'' @ [CHR 0x0A] @ ''      }'' @ [CHR 0x0A] @ ''    }'' @ [CHR 0x0A]
        @ ''  }'')"
  by (simp add: match_class_def name_then_def is_space_def)

lemma later_text_block:
  "search_class ''A''
     (''class A {'' @ [CHR 0x0A] @ ''foo() {'' @ [CHR 0x0A] @ ''}'' @ [CHR 0x0A] @ ''}'' @ [CHR 0x0A]
        @ ''class B {'' @ [CHR 0x0A] @ ''bar() {'' @ [CHR 0x0A] @ ''}'' @ [CHR 0x0A] @ ''}'')
   = Some ([CHR 0x0A] @ ''foo() {'' @ [CHR 0x0A] @ ''}'' @ [CHR 0x0A] @ ''}'' @ [CHR 0x0A]
        @ ''class B {'' @ [CHR 0x0A] @ ''bar() {'' @ [CHR 0x0A] @ ''}'')"
  by (simp add: match_class_def name_then_def is_space_def)

lemma strip_examples:
  "strip [] = []" "strip ''  foo() {'' = ''foo() {''" "strip ''foo() {'' = ''foo() {''"
  "strip ''    class Inner {'' = ''class Inner {''" "strip ''class B {'' = ''class B {''"
  "strip ''      bar() {'' = ''bar() {''" "strip ''bar() {'' = ''bar() {''"
  "strip ''      }'' = ''}''" "strip ''    }'' = ''}''" "strip ''  }'' = ''}''" "strip ''}'' = ''}''"
  by (simp_all add: strip_def is_space_def)

lemma method_name_examples:
  "method_name [] = None"
  "method_name ''  foo() {'' = Some ''foo''" "method_name ''foo() {'' = Some ''foo''"
  "method_name ''    class Inner {'' = None" "method_name ''class B {'' = None"
  "method_name ''      bar() {'' = Some ''bar''" "method_name ''bar() {'' = Some ''bar''"
  "method_name ''      }'' = None" "method_name ''    }'' = None" "method_name ''  }'' = None"
  "method_name ''}'' = None"
  unfolding method_name_def Let_def strip_examples
  by (simp_all add: sync_shape_def is_ident_def is_space_def)

text \<open>
  C1 as stated fails: the method \<^verbatim>\<open>bar\<close> of a construct nested in \<^verbatim>\<open>A\<close>, and the method
  \<^verbatim>\<open>bar\<close> of a construct \<^verbatim>\<open>B\<close> that follows \<^verbatim>\<open>A\<close> in the text, are both in the
  vocabulary of \<^verbatim>\<open>A\<close>.
\<close>

theorem nested_and_later_methods_counterexample:
  "extract_methods
     (''class A {'' @ [CHR 0x0A] @ ''  foo() {'' @ [CHR 0x0A] @ ''    class Inner {'' @ [CHR 0x0A]
        @ ''      bar() {'' @ [CHR 0x0A] @ ''      }'' @ [CHR 0x0A] @ ''    }'' @ [CHR 0x0A]
        @ ''  }'' @ [CHR 0x0A] @ ''}'') ''A''
     = {''foo'', ''bar''}
   \<and> extract_methods
     (''class A {'' @ [CHR 0x0A] @ ''foo() {'' @ [CHR 0x0A] @ ''}'' @ [CHR 0x0A] @ ''}'' @ [CHR 0x0A]
        @ ''class B {'' @ [CHR 0x0A] @ ''bar() {'' @ [CHR 0x0A] @ ''}'' @ [CHR 0x0A] @ ''}'') ''A''
     = {''foo'', ''bar''}"
  unfolding extract_methods_def nested_text_block later_text_block
  by (simp add: add_method_def method_name_examples insert_commute)

text \<open>
  The text with the two constructs \<^verbatim>\<open>A\<close> and \<^verbatim>\<open>B\<close>.
\<close>

theorem extracted_names_come_from_captured_lines_witness:
  "regex_literal ''A''
   \<and> extract_methods
       (''class A {'' @ [CHR 0x0A] @ ''foo() {'' @ [CHR 0x0A] @ ''}'' @ [CHR 0x0A] @ ''}'' @ [CHR 0x0A]
          @ ''class B {'' @ [CHR 0x0A] @ ''bar() {'' @ [CHR 0x0A] @ ''}'' @ [CHR 0x0A] @ ''}'') ''A''
     = {n. \<exists>line \<in> set [[], ''foo() {'', ''}'', ''}'', ''class B {'', ''bar() {'', ''}''].
             method_name line = Some n}"
proof -
  have r: "regex_literal ''A''" by (simp add: regex_literal_def)
  have s: "split_on (CHR 0x0A) ([CHR 0x0A] @ ''foo() {'' @ [CHR 0x0A] @ ''}'' @ [CHR 0x0A] @ ''}'' @ [CHR 0x0A]
        @ ''class B {'' @ [CHR 0x0A] @ ''bar() {'' @ [CHR 0x0A] @ ''}'')
      = [[], ''foo() {'', ''}'', ''}'', ''class B {'', ''bar() {'', ''}'']"
    by simp
  from extracted_names_come_from_captured_lines[OF r later_text_block, THEN conjunct1] r
  show ?thesis unfolding s by (rule conjI[rotated])
qed

end
